theory Spec2Isabelle
  imports Main
begin

section \<open>The hook's data\<close>

text \<open>
  \<^verbatim>\<open>useAwaitData\<close> (src/index.ts) keeps, per mounted component, a \<^verbatim>\<open>Map\<close> from task
  functions to statuses, two refs naming the task and the \<^verbatim>\<open>AbortController\<close> of the most
  recent run, and a ref holding the result object it returns. A task function and an
  \<^verbatim>\<open>AbortController\<close> are compared by identity only, so each is modelled by a number that
  stands for its identity.
\<close>

type_synonym task = nat
type_synonym controller = nat

text \<open>\<^verbatim>\<open>Status = Result<unknown>["status"]\<close>\<close>

datatype status = Fulfilled | Rejected | Running | Aborted

text \<open>
  A rejection reason is \<^verbatim>\<open>unknown\<close>: one of the two module-private symbols, or any other
  value.
\<close>

datatype 'e thrown = symbolInvalidate | symbolAborted | Thrown 'e

text \<open>
  \<^verbatim>\<open>Result<Value>\<close>. The \<^verbatim>\<open>abort\<close> function carried by a running result is the closure made
  by \<^verbatim>\<open>useCallback\<close>; it is represented by the two variables it closes over, the task and
  the \<^verbatim>\<open>AbortController\<close> of the render that made it.
\<close>

datatype ('v, 'e) result =
    ResFulfilled 'v
  | ResRejected "'e thrown"
  | ResRunning task controller
  | ResAborted

fun status_of :: "('v, 'e) result \<Rightarrow> status" where
  "status_of (ResFulfilled v) = Fulfilled"
| "status_of (ResRejected e) = Rejected"
| "status_of (ResRunning t c) = Running"
| "status_of ResAborted = Aborted"

text \<open>The \<^verbatim>\<open>tick\<close> closure of a run, which closes over the run's task.\<close>

datatype tick = Tick task

text \<open>
  The calls by which the hook acts on its surroundings and on its own cells, in the order
  they are made.
\<close>

datatype ('v, 'e) effect =
    SetResult "('v, 'e) result"
  | TasksSet task status
  | TasksDelete task
  | ControllerAbort controller
  | Rerender
  | TaskCalled task controller

record ('v, 'e) hook =
  tasks :: "task \<rightharpoonup> status"
  staleTaskRef :: "task option"
  staleAbortControllerRef :: "controller option"
  resultRef :: "('v, 'e) result"
  signal_aborted :: "controller set"
  controllers :: nat
  effects :: "('v, 'e) effect list"

section \<open>The hook's operations\<close>

text \<open>\<^verbatim>\<open>resultRef.current = result; tasks.set(task, result.status)\<close>\<close>

definition updateResult ::
  "task \<Rightarrow> ('v, 'e) result \<Rightarrow> ('v, 'e) hook \<Rightarrow> ('v, 'e) hook" where
  "updateResult task result s =
     s\<lparr>resultRef := result,
       tasks := (tasks s)(task \<mapsto> status_of result),
       effects := effects s @ [SetResult result, TasksSet task (status_of result)]\<rparr>"

text \<open>\<^verbatim>\<open>setIsRerender({})\<close>: the request to the view layer to render again.\<close>

definition rerender :: "('v, 'e) hook \<Rightarrow> ('v, 'e) hook" where
  "rerender s = s\<lparr>effects := effects s @ [Rerender]\<rparr>"

text \<open>\<^verbatim>\<open>AbortController.abort()\<close>: the controller's signal is aborted from now on.\<close>

definition controller_abort :: "controller \<Rightarrow> ('v, 'e) hook \<Rightarrow> ('v, 'e) hook" where
  "controller_abort c s =
     s\<lparr>signal_aborted := insert c (signal_aborted s),
       effects := effects s @ [ControllerAbort c]\<rparr>"

text \<open>\<^verbatim>\<open>tasks.delete(t)\<close>\<close>

definition tasks_delete :: "task \<Rightarrow> ('v, 'e) hook \<Rightarrow> ('v, 'e) hook" where
  "tasks_delete t s =
     s\<lparr>tasks := (tasks s)(t := None), effects := effects s @ [TasksDelete t]\<rparr>"

text \<open>\<^verbatim>\<open>task(scheduler)\<close>: the body starts, holding \<^verbatim>\<open>tick\<close> and the controller's signal.\<close>

definition call_task :: "task \<Rightarrow> controller \<Rightarrow> ('v, 'e) hook \<Rightarrow> ('v, 'e) hook" where
  "call_task task c s = s\<lparr>effects := effects s @ [TaskCalled task c]\<rparr>"

text \<open>The \<^verbatim>\<open>abort\<close> callback of the render with \<^verbatim>\<open>task\<close> and \<^verbatim>\<open>abortController\<close>.\<close>

definition abort :: "task \<Rightarrow> controller \<Rightarrow> ('v, 'e) hook \<Rightarrow> ('v, 'e) hook" where
  "abort task abortController s =
     (if tasks s task = Some Running
      then rerender (controller_abort abortController (updateResult task ResAborted s))
      else s)"

definition onfulfilled :: "task \<Rightarrow> 'v \<Rightarrow> ('v, 'e) hook \<Rightarrow> ('v, 'e) hook" where
  "onfulfilled task v s =
     (case tasks s task of
        None \<Rightarrow> s
      | Some Aborted \<Rightarrow> s
      | _ \<Rightarrow> rerender (updateResult task (ResFulfilled v) s))"

definition onrejected :: "task \<Rightarrow> 'e thrown \<Rightarrow> ('v, 'e) hook \<Rightarrow> ('v, 'e) hook" where
  "onrejected task error s =
     (case error of
        symbolInvalidate \<Rightarrow> s
      | symbolAborted \<Rightarrow> s
      | _ \<Rightarrow> rerender (updateResult task (ResRejected error) s))"

text \<open>
  \<^verbatim>\<open>tick\<close> returns a promise that is settled inside its executor: \<open>Inl\<close> is the
  rejection reason, \<open>Inr\<close> the value it resolves to.
\<close>

definition tick :: "task \<Rightarrow> ('v, 'e) hook \<Rightarrow> 'e thrown + tick" where
  "tick task s =
     (case tasks s task of
        None \<Rightarrow> Inl symbolInvalidate
      | Some Aborted \<Rightarrow> Inl symbolAborted
      | _ \<Rightarrow> Inr (Tick task))"

text \<open>
  The body of the \<^verbatim>\<open>useMemo\<close> that starts a run, from \<^verbatim>\<open>updateResult({ status: "running",
  abort })\<close> to \<^verbatim>\<open>task(scheduler)\<close>.
\<close>

definition start :: "task \<Rightarrow> controller \<Rightarrow> ('v, 'e) hook \<Rightarrow> ('v, 'e) hook" where
  "start task abortController s =
     (let s1 = updateResult task (ResRunning task abortController) s;
          s2 = (case staleTaskRef s1 of None \<Rightarrow> s1 | Some t \<Rightarrow> tasks_delete t s1);
          s3 = s2\<lparr>staleTaskRef := Some task\<rparr>;
          s4 = (case staleAbortControllerRef s3 of
                  None \<Rightarrow> s3
                | Some a \<Rightarrow> controller_abort a s3);
          s5 = s4\<lparr>staleAbortControllerRef := Some abortController\<rparr>
      in call_task task abortController s5)"

text \<open>
  The first render: the map is empty, both refs are \<^verbatim>\<open>undefined\<close>, the first
  \<^verbatim>\<open>AbortController\<close> is made, \<^verbatim>\<open>resultRef\<close> starts as the running result, and the
  \<^verbatim>\<open>useMemo\<close> body runs.
\<close>

definition mount :: "task \<Rightarrow> ('v, 'e) hook" where
  "mount task =
     start task 0
       \<lparr>tasks = Map.empty, staleTaskRef = None, staleAbortControllerRef = None,
        resultRef = ResRunning task 0, signal_aborted = {}, controllers = 1, effects = []\<rparr>"

text \<open>
  A later render whose dependencies changed: \<^verbatim>\<open>new AbortController()\<close> makes a controller
  that did not exist before, the callbacks are made again over this render's task and
  controller, and the \<^verbatim>\<open>useMemo\<close> body runs. (A render with unchanged dependencies runs
  none of this.)
\<close>

definition update :: "task \<Rightarrow> ('v, 'e) hook \<Rightarrow> ('v, 'e) hook" where
  "update task s = start task (controllers s) (s\<lparr>controllers := Suc (controllers s)\<rparr>)"

text \<open>The number of times \<^verbatim>\<open>resultRef.current\<close> was assigned.\<close>

fun is_SetResult :: "('v, 'e) effect \<Rightarrow> bool" where
  "is_SetResult (SetResult r) = True"
| "is_SetResult _ = False"

definition publications :: "('v, 'e) hook \<Rightarrow> nat" where
  "publications s = length (filter is_SetResult (effects s))"

text \<open>The number of times the view layer was asked to render again.\<close>

definition notifications :: "('v, 'e) hook \<Rightarrow> nat" where
  "notifications s = length (filter (\<lambda>e. e = Rerender) (effects s))"

section \<open>Renders and callbacks over time\<close>

text \<open>
  What can happen to a mounted hook: a render with changed dependencies and some task
  function, a call of the \<^verbatim>\<open>abort\<close> function made by an earlier render, and the
  settlement of the promise an earlier render obtained from its task. The callbacks of a
  render are named by the number of the \<^verbatim>\<open>AbortController\<close> that render made; \<open>runs\<close>
  remembers which task each of them closes over. A callback of a render that has not
  happened cannot be called.
\<close>

datatype ('v, 'e) event =
    Update task
  | AbortCall controller
  | Fulfil controller 'v
  | Reject controller "'e thrown"

record ('v, 'e) component =
  state :: "('v, 'e) hook"
  runs :: "task list"

fun step :: "('v, 'e) event \<Rightarrow> ('v, 'e) component \<Rightarrow> ('v, 'e) component" where
  "step (Update t) w = \<lparr>state = update t (state w), runs = runs w @ [t]\<rparr>"
| "step (AbortCall c) w =
     (if c < length (runs w) then w\<lparr>state := abort (runs w ! c) c (state w)\<rparr> else w)"
| "step (Fulfil c v) w =
     (if c < length (runs w) then w\<lparr>state := onfulfilled (runs w ! c) v (state w)\<rparr> else w)"
| "step (Reject c e) w =
     (if c < length (runs w) then w\<lparr>state := onrejected (runs w ! c) e (state w)\<rparr> else w)"

fun exec :: "('v, 'e) event list \<Rightarrow> ('v, 'e) component \<Rightarrow> ('v, 'e) component" where
  "exec [] w = w"
| "exec (e # es) w = exec es (step e w)"

definition mounted :: "task \<Rightarrow> ('v, 'e) component" where
  "mounted t = \<lparr>state = mount t, runs = [t]\<rparr>"

fun is_Update :: "('v, 'e) event \<Rightarrow> bool" where
  "is_Update (Update t) = True"
| "is_Update _ = False"

text \<open>
  The task functions of the starts in a history, in order, and the task function of the
  most recent of them, if there is one.
\<close>

fun started :: "('v, 'e) event list \<Rightarrow> task list" where
  "started [] = []"
| "started (Update t # es) = t # started es"
| "started (AbortCall c # es) = started es"
| "started (Fulfil c v # es) = started es"
| "started (Reject c r # es) = started es"

definition last_start :: "('v, 'e) event list \<Rightarrow> task option" where
  "last_start evs = (if started evs = [] then None else Some (last (started evs)))"

text \<open>
  The two ways named for a run's signal to become aborted, read off a history \<open>evs\<close> of a
  hook mounted with task \<open>h\<close>; a run is named by the number of its controller.
  \<^item> \<^verbatim>\<open>abort\<close> of run \<open>c\<close> was called at a moment when the run existed and the map held
    \<^verbatim>\<open>"running"\<close> for its task;
  \<^item> a start happened at a moment when run \<open>c\<close> already existed.
\<close>

definition abort_requested_while_running ::
  "task \<Rightarrow> ('v, 'e) event list \<Rightarrow> controller \<Rightarrow> bool" where
  "abort_requested_while_running h evs c \<longleftrightarrow>
     (\<exists>i < length evs.
        evs ! i = AbortCall c \<and>
        c < length (runs (exec (take i evs) (mounted h))) \<and>
        tasks (state (exec (take i evs) (mounted h)))
          (runs (exec (take i evs) (mounted h)) ! c) = Some Running)"

definition evicted_by_later_start ::
  "task \<Rightarrow> ('v, 'e) event list \<Rightarrow> controller \<Rightarrow> bool" where
  "evicted_by_later_start h evs c \<longleftrightarrow>
     (\<exists>i < length evs.
        is_Update (evs ! i) \<and>
        c < length (runs (exec (take i evs) (mounted h :: ('v, 'e) component))))"

section \<open>What each operation leaves behind\<close>

lemmas cell_ops =
  updateResult_def rerender_def controller_abort_def tasks_delete_def call_task_def

lemma tasks_start:
  "tasks (start t c s) =
     (case staleTaskRef s of
        None \<Rightarrow> (tasks s)(t \<mapsto> Running)
      | Some p \<Rightarrow> ((tasks s)(t \<mapsto> Running))(p := None))"
  by (simp add: start_def cell_ops Let_def split: option.splits)

lemma effects_start:
  "effects (start t c s) =
     effects s @ [SetResult (ResRunning t c), TasksSet t Running]
       @ (case staleTaskRef s of None \<Rightarrow> [] | Some p \<Rightarrow> [TasksDelete p])
       @ (case staleAbortControllerRef s of None \<Rightarrow> [] | Some a \<Rightarrow> [ControllerAbort a])
       @ [TaskCalled t c]"
  by (simp add: start_def cell_ops Let_def split: option.splits)

lemma signal_aborted_start:
  "signal_aborted (start t c s) =
     (case staleAbortControllerRef s of
        None \<Rightarrow> signal_aborted s
      | Some a \<Rightarrow> insert a (signal_aborted s))"
  by (simp add: start_def cell_ops Let_def split: option.splits)

lemma refs_start:
  "staleTaskRef (start t c s) = Some t"
  "staleAbortControllerRef (start t c s) = Some c"
  "resultRef (start t c s) = ResRunning t c"
  "controllers (start t c s) = controllers s"
  by (simp_all add: start_def cell_ops Let_def split: option.splits)

lemma abort_when_running:
  "tasks s t = Some Running \<Longrightarrow>
   abort t c s =
     s\<lparr>resultRef := ResAborted, tasks := (tasks s)(t \<mapsto> Aborted),
       signal_aborted := insert c (signal_aborted s),
       effects := effects s @ [SetResult ResAborted, TasksSet t Aborted,
                               ControllerAbort c, Rerender]\<rparr>"
  by (simp add: abort_def cell_ops)

lemma abort_when_not_running: "tasks s t \<noteq> Some Running \<Longrightarrow> abort t c s = s"
  by (simp add: abort_def)

lemma onfulfilled_published:
  "tasks s t \<noteq> None \<Longrightarrow> tasks s t \<noteq> Some Aborted \<Longrightarrow>
   onfulfilled t v s =
     s\<lparr>resultRef := ResFulfilled v, tasks := (tasks s)(t \<mapsto> Fulfilled),
       effects := effects s @ [SetResult (ResFulfilled v), TasksSet t Fulfilled, Rerender]\<rparr>"
  by (auto simp: onfulfilled_def cell_ops split: option.splits status.splits)

lemma onfulfilled_discarded:
  "tasks s t = None \<or> tasks s t = Some Aborted \<Longrightarrow> onfulfilled t v s = s"
  by (auto simp: onfulfilled_def)

lemma onrejected_published:
  "e \<noteq> symbolInvalidate \<Longrightarrow> e \<noteq> symbolAborted \<Longrightarrow>
   onrejected t e s =
     s\<lparr>resultRef := ResRejected e, tasks := (tasks s)(t \<mapsto> Rejected),
       effects := effects s @ [SetResult (ResRejected e), TasksSet t Rejected, Rerender]\<rparr>"
  by (cases e) (simp_all add: onrejected_def cell_ops)

lemma onrejected_discarded:
  "e = symbolInvalidate \<or> e = symbolAborted \<Longrightarrow> onrejected t e s = s"
  by (auto simp: onrejected_def)

lemma effects_grow_neq:
  "effects s' = effects s @ x # xs \<Longrightarrow> s' \<noteq> s"
  by auto

lemma exec_append: "exec (es @ fs) w = exec fs (exec es w)"
  by (induction es arbitrary: w) simp_all

lemma step_keeps_not_running:
  assumes nr: "tasks (state w) h \<noteq> Some Running" and ne: "e \<noteq> Update h"
  shows "tasks (state (step e w)) h \<noteq> Some Running"
proof (cases e)
  case (Update t)
  with nr ne show ?thesis
    by (auto simp: update_def tasks_start split: option.splits)
next
  case (AbortCall c)
  with nr show ?thesis
    by (auto simp: abort_def cell_ops)
next
  case (Fulfil c v)
  with nr show ?thesis
    by (auto simp: onfulfilled_def cell_ops split: option.splits status.splits)
next
  case (Reject c r)
  with nr show ?thesis
    by (auto simp: onrejected_def cell_ops split: thrown.splits)
qed

lemma exec_keeps_not_running:
  "tasks (state w) h \<noteq> Some Running \<Longrightarrow> Update h \<notin> set evs \<Longrightarrow>
   tasks (state (exec evs w)) h \<noteq> Some Running"
proof (induction evs arbitrary: w)
  case Nil
  then show ?case by simp
next
  case (Cons e evs)
  from Cons.prems have "tasks (state (step e w)) h \<noteq> Some Running"
    by (intro step_keeps_not_running) auto
  with Cons show ?case by simp
qed

lemma mount_cells:
  "tasks (mount t) = [t \<mapsto> Running]"
  "staleTaskRef (mount t) = Some t"
  "staleAbortControllerRef (mount t) = Some 0"
  "resultRef (mount t) = ResRunning t 0"
  "signal_aborted (mount t) = {}"
  "controllers (mount t) = 1"
  "effects (mount t) = [SetResult (ResRunning t 0), TasksSet t Running, TaskCalled t 0]"
  by (simp_all add: mount_def tasks_start refs_start signal_aborted_start effects_start)

lemma update_cells:
  "tasks (update t s) =
     (case staleTaskRef s of
        None \<Rightarrow> (tasks s)(t \<mapsto> Running)
      | Some p \<Rightarrow> ((tasks s)(t \<mapsto> Running))(p := None))"
  "staleTaskRef (update t s) = Some t"
  "staleAbortControllerRef (update t s) = Some (controllers s)"
  "resultRef (update t s) = ResRunning t (controllers s)"
  "signal_aborted (update t s) =
     (case staleAbortControllerRef s of
        None \<Rightarrow> signal_aborted s
      | Some a \<Rightarrow> insert a (signal_aborted s))"
  "controllers (update t s) = Suc (controllers s)"
  "effects (update t s) =
     effects s @ [SetResult (ResRunning t (controllers s)), TasksSet t Running]
       @ (case staleTaskRef s of None \<Rightarrow> [] | Some p \<Rightarrow> [TasksDelete p])
       @ (case staleAbortControllerRef s of None \<Rightarrow> [] | Some a \<Rightarrow> [ControllerAbort a])
       @ [TaskCalled t (controllers s)]"
  by (simp_all add: update_def tasks_start refs_start signal_aborted_start effects_start
      split: option.splits)

lemma callbacks_keep_refs:
  "staleTaskRef (abort t c s) = staleTaskRef s"
  "staleAbortControllerRef (abort t c s) = staleAbortControllerRef s"
  "controllers (abort t c s) = controllers s"
  "staleTaskRef (onfulfilled t v s) = staleTaskRef s"
  "staleAbortControllerRef (onfulfilled t v s) = staleAbortControllerRef s"
  "controllers (onfulfilled t v s) = controllers s"
  "staleTaskRef (onrejected t e s) = staleTaskRef s"
  "staleAbortControllerRef (onrejected t e s) = staleAbortControllerRef s"
  "controllers (onrejected t e s) = controllers s"
  by (simp_all add: abort_def onfulfilled_def onrejected_def cell_ops
      split: option.splits status.splits thrown.splits)

text \<open>
  After the first render, and after whatever happens later, the two refs name the task
  and the controller of the latest run, and the next controller will be a new one.
\<close>

lemma step_latest_run:
  assumes "runs w \<noteq> []" and "staleTaskRef (state w) = Some (last (runs w))"
    and "staleAbortControllerRef (state w) = Some (length (runs w) - 1)"
    and "controllers (state w) = length (runs w)"
  shows "runs (step e w) \<noteq> [] \<and>
     staleTaskRef (state (step e w)) = Some (last (runs (step e w))) \<and>
     staleAbortControllerRef (state (step e w)) = Some (length (runs (step e w)) - 1) \<and>
     controllers (state (step e w)) = length (runs (step e w))"
  using assms by (cases e) (simp_all add: update_cells callbacks_keep_refs)

lemma exec_latest_run:
  assumes "runs w \<noteq> []" and "staleTaskRef (state w) = Some (last (runs w))"
    and "staleAbortControllerRef (state w) = Some (length (runs w) - 1)"
    and "controllers (state w) = length (runs w)"
  shows "runs (exec evs w) \<noteq> [] \<and>
     staleTaskRef (state (exec evs w)) = Some (last (runs (exec evs w))) \<and>
     staleAbortControllerRef (state (exec evs w)) = Some (length (runs (exec evs w)) - 1) \<and>
     controllers (state (exec evs w)) = length (runs (exec evs w))"
  using assms
proof (induction evs arbitrary: w)
  case Nil
  then show ?case by simp
next
  case (Cons e evs)
  have "runs (step e w) \<noteq> [] \<and>
     staleTaskRef (state (step e w)) = Some (last (runs (step e w))) \<and>
     staleAbortControllerRef (state (step e w)) = Some (length (runs (step e w)) - 1) \<and>
     controllers (state (step e w)) = length (runs (step e w))"
    using Cons.prems by (rule step_latest_run)
  then show ?case
    using Cons.IH [of "step e w"] by simp
qed

lemma mounted_latest_run:
  "runs (exec evs (mounted h)) \<noteq> [] \<and>
   staleTaskRef (state (exec evs (mounted h))) = Some (last (runs (exec evs (mounted h)))) \<and>
   staleAbortControllerRef (state (exec evs (mounted h))) =
     Some (length (runs (exec evs (mounted h))) - 1) \<and>
   controllers (state (exec evs (mounted h))) = length (runs (exec evs (mounted h)))"
  by (rule exec_latest_run) (simp_all add: mounted_def mount_cells)

lemma runs_count: "length (runs (exec evs w)) = length (runs w) + length (filter is_Update evs)"
proof (induction evs arbitrary: w)
  case Nil
  then show ?case by simp
next
  case (Cons e evs)
  then show ?case by (cases e) simp_all
qed

lemma ex_less_Suc: "(\<exists>i < Suc n. P i) \<longleftrightarrow> (\<exists>i < n. P i) \<or> P n"
  by (auto simp: less_Suc_eq)

lemma abort_requested_snoc:
  "abort_requested_while_running h (evs @ [a]) c \<longleftrightarrow>
     abort_requested_while_running h evs c \<or>
     (a = AbortCall c \<and>
      c < length (runs (exec evs (mounted h))) \<and>
      tasks (state (exec evs (mounted h))) (runs (exec evs (mounted h)) ! c) = Some Running)"
proof -
  have "abort_requested_while_running h (evs @ [a]) c \<longleftrightarrow>
      (\<exists>i < length evs.
        (evs @ [a]) ! i = AbortCall c \<and>
        c < length (runs (exec (take i (evs @ [a])) (mounted h))) \<and>
        tasks (state (exec (take i (evs @ [a])) (mounted h)))
          (runs (exec (take i (evs @ [a])) (mounted h)) ! c) = Some Running) \<or>
      ((evs @ [a]) ! length evs = AbortCall c \<and>
        c < length (runs (exec (take (length evs) (evs @ [a])) (mounted h))) \<and>
        tasks (state (exec (take (length evs) (evs @ [a])) (mounted h)))
          (runs (exec (take (length evs) (evs @ [a])) (mounted h)) ! c) = Some Running)"
    unfolding abort_requested_while_running_def length_append_singleton
    by (rule ex_less_Suc)
  also have "(\<exists>i < length evs.
        (evs @ [a]) ! i = AbortCall c \<and>
        c < length (runs (exec (take i (evs @ [a])) (mounted h))) \<and>
        tasks (state (exec (take i (evs @ [a])) (mounted h)))
          (runs (exec (take i (evs @ [a])) (mounted h)) ! c) = Some Running) \<longleftrightarrow>
      abort_requested_while_running h evs c"
    unfolding abort_requested_while_running_def
    by (intro ex_cong1 conj_cong refl) (simp_all add: nth_append)
  finally show ?thesis
    by simp
qed

lemma evicted_snoc:
  "evicted_by_later_start h (evs @ [a]) c \<longleftrightarrow>
     evicted_by_later_start h evs c \<or>
     (is_Update a \<and> c < length (runs (exec evs (mounted h))))"
proof -
  have "evicted_by_later_start h (evs @ [a]) c \<longleftrightarrow>
      (\<exists>i < length evs.
        is_Update ((evs @ [a]) ! i) \<and>
        c < length (runs (exec (take i (evs @ [a])) (mounted h)))) \<or>
      (is_Update ((evs @ [a]) ! length evs) \<and>
        c < length (runs (exec (take (length evs) (evs @ [a])) (mounted h))))"
    unfolding evicted_by_later_start_def length_append_singleton
    by (rule ex_less_Suc)
  also have "(\<exists>i < length evs.
        is_Update ((evs @ [a]) ! i) \<and>
        c < length (runs (exec (take i (evs @ [a])) (mounted h)))) \<longleftrightarrow>
      evicted_by_later_start h evs c"
    unfolding evicted_by_later_start_def
    by (intro ex_cong1 conj_cong refl) (simp_all add: nth_append)
  finally show ?thesis
    by simp
qed

lemma evicted_iff_not_latest:
  "evicted_by_later_start h evs c \<longleftrightarrow>
     Suc c < length (runs (exec evs (mounted h :: ('v, 'e) component)))"
proof (induction evs rule: rev_induct)
  case Nil
  then show ?case
    by (simp add: evicted_by_later_start_def mounted_def)
next
  case (snoc a evs)
  have "length (runs (exec (evs @ [a]) (mounted h :: ('v, 'e) component))) =
      length (runs (exec evs (mounted h :: ('v, 'e) component)))
        + (if is_Update a then 1 else 0)"
    by (simp add: runs_count)
  with snoc show ?case
    by (auto simp: evicted_snoc)
qed

lemma signal_aborted_step:
  assumes "staleAbortControllerRef (state w) = Some (length (runs w) - 1)"
    and "runs w \<noteq> []"
  shows "c \<in> signal_aborted (state (step a w)) \<longleftrightarrow>
     c \<in> signal_aborted (state w) \<or>
     (is_Update a \<and> Suc c = length (runs w)) \<or>
     (a = AbortCall c \<and> c < length (runs w) \<and>
      tasks (state w) (runs w ! c) = Some Running)"
proof (cases a)
  case (Update t)
  with assms show ?thesis
    by (auto simp: update_cells)
next
  case (AbortCall d)
  then show ?thesis
    by (cases "tasks (state w) (runs w ! d) = Some Running")
      (auto simp: abort_when_running abort_when_not_running)
next
  case (Fulfil d v)
  then show ?thesis
    by (cases "tasks (state w) (runs w ! d) = None \<or>
          tasks (state w) (runs w ! d) = Some Aborted")
      (auto simp: onfulfilled_published onfulfilled_discarded)
next
  case (Reject d r)
  then show ?thesis
    by (cases "r = symbolInvalidate \<or> r = symbolAborted")
      (auto simp: onrejected_published onrejected_discarded)
qed




text \<open>Only the task of the latest run can be entered as \<^verbatim>\<open>"running"\<close>.\<close>

lemma callbacks_no_new_running:
  "tasks (abort x c s) t = Some Running \<Longrightarrow> tasks s t = Some Running"
  "tasks (onfulfilled x v s) t = Some Running \<Longrightarrow> tasks s t = Some Running"
  "tasks (onrejected x e s) t = Some Running \<Longrightarrow> tasks s t = Some Running"
  by (auto simp: abort_def onfulfilled_def onrejected_def cell_ops
      split: if_splits option.splits status.splits thrown.splits)

lemma step_running_entry:
  assumes "\<forall>t. tasks (state w) t = Some Running \<longrightarrow> staleTaskRef (state w) = Some t"
  shows "\<forall>t. tasks (state (step a w)) t = Some Running \<longrightarrow>
      staleTaskRef (state (step a w)) = Some t"
proof (cases a)
  case (Update u)
  with assms show ?thesis
    by (auto simp: update_cells split: option.splits if_splits)
next
  case (AbortCall d)
  with assms show ?thesis
    by (auto simp: callbacks_keep_refs dest: callbacks_no_new_running)
next
  case (Fulfil d v)
  with assms show ?thesis
    by (auto simp: callbacks_keep_refs dest: callbacks_no_new_running)
next
  case (Reject d r)
  with assms show ?thesis
    by (auto simp: callbacks_keep_refs dest: callbacks_no_new_running)
qed

lemma exec_running_entry:
  assumes "\<forall>t. tasks (state w) t = Some Running \<longrightarrow> staleTaskRef (state w) = Some t"
  shows "\<forall>t. tasks (state (exec evs w)) t = Some Running \<longrightarrow>
      staleTaskRef (state (exec evs w)) = Some t"
  using assms
proof (induction evs arbitrary: w)
  case Nil
  then show ?case by simp
next
  case (Cons a evs)
  from Cons.prems have "\<forall>t. tasks (state (step a w)) t = Some Running \<longrightarrow>
      staleTaskRef (state (step a w)) = Some t"
    by (rule step_running_entry)
  then show ?case
    using Cons.IH [of "step a w"] by simp
qed

lemma at_most_one_running:
  assumes "tasks (state (exec evs (mounted h))) t = Some Running"
    and "tasks (state (exec evs (mounted h))) u = Some Running"
  shows "t = u"
proof -
  have "\<forall>t. tasks (state (exec evs (mounted h))) t = Some Running \<longrightarrow>
      staleTaskRef (state (exec evs (mounted h))) = Some t"
    by (rule exec_running_entry) (simp add: mounted_def mount_cells)
  with assms have "Some t = Some u"
    by metis
  then show ?thesis
    by simp
qed

text \<open>
  As long as no promise rejects with a reason of its own, the map holds no entry besides
  that of the latest run's task.
\<close>

lemma callbacks_keep_entries:
  "dom (tasks (abort x c s)) = dom (tasks s)"
  "dom (tasks (onfulfilled x v s)) = dom (tasks s)"
  "dom (tasks (onrejected x symbolInvalidate s)) = dom (tasks s)"
  "dom (tasks (onrejected x symbolAborted s)) = dom (tasks s)"
  by (auto simp: abort_def onfulfilled_def onrejected_def cell_ops
      split: if_splits option.splits status.splits)

lemma step_single_entry:
  assumes "dom (tasks (state w)) \<subseteq> set_option (staleTaskRef (state w))"
    and "\<forall>c e. a \<noteq> Reject c (Thrown e)"
  shows "dom (tasks (state (step a w))) \<subseteq> set_option (staleTaskRef (state (step a w)))"
proof (cases a)
  case (Update u)
  with assms(1) show ?thesis
    by (auto simp: update_cells split: option.splits if_splits)
next
  case (AbortCall d)
  with assms(1) show ?thesis
    by (simp add: callbacks_keep_entries callbacks_keep_refs)
next
  case (Fulfil d v)
  with assms(1) show ?thesis
    by (simp add: callbacks_keep_entries callbacks_keep_refs)
next
  case (Reject d r)
  with assms show ?thesis
    by (cases r) (simp_all add: callbacks_keep_entries callbacks_keep_refs)
qed

lemma exec_single_entry:
  assumes "dom (tasks (state w)) \<subseteq> set_option (staleTaskRef (state w))"
    and "\<forall>c e. Reject c (Thrown e) \<notin> set evs"
  shows "dom (tasks (state (exec evs w))) \<subseteq> set_option (staleTaskRef (state (exec evs w)))"
  using assms
proof (induction evs arbitrary: w)
  case Nil
  then show ?case by simp
next
  case (Cons a evs)
  from Cons.prems have "dom (tasks (state (step a w))) \<subseteq>
      set_option (staleTaskRef (state (step a w)))"
    by (intro step_single_entry) auto
  moreover from Cons.prems have "\<forall>c e. Reject c (Thrown e) \<notin> set evs"
    by auto
  ultimately show ?case
    using Cons.IH [of "step a w"] by simp
qed

lemma single_entry_without_own_rejections:
  assumes "\<forall>c e. Reject c (Thrown e) \<notin> set evs"
  shows "dom (tasks (state (exec evs (mounted h)))) \<subseteq> {last (runs (exec evs (mounted h)))}"
proof -
  have "dom (tasks (state (exec evs (mounted h)))) \<subseteq>
      set_option (staleTaskRef (state (exec evs (mounted h))))"
    using _ assms by (rule exec_single_entry) (simp add: mounted_def mount_cells)
  then show ?thesis
    using mounted_latest_run [of evs h] by simp
qed

lemma started_append: "started (es @ fs) = started es @ started fs"
proof (induction es)
  case Nil
  then show ?case by simp
next
  case (Cons a es)
  then show ?case by (cases a) simp_all
qed

lemma runs_exec: "runs (exec evs w) = runs w @ started evs"
proof (induction evs arbitrary: w)
  case Nil
  then show ?case by simp
next
  case (Cons a evs)
  then show ?case by (cases a) simp_all
qed

lemma last_start_snoc:
  "last_start (evs @ [Update u]) = Some u"
  "last_start (evs @ [AbortCall c]) = last_start evs"
  "last_start (evs @ [Fulfil c v]) = last_start evs"
  "last_start (evs @ [Reject c r]) = last_start evs"
  by (simp_all add: last_start_def started_append)

lemma started_no_update: "Update t \<notin> set evs \<Longrightarrow> t \<notin> set (started evs)"
proof (induction evs)
  case Nil
  then show ?case by simp
next
  case (Cons a evs)
  then show ?case by (cases a) auto
qed

lemma last_start_no_update: "Update t \<notin> set evs \<Longrightarrow> last_start evs \<noteq> Some t"
  using started_no_update [of t evs] last_in_set [of "started evs"]
  by (auto simp: last_start_def)

lemma stale_exec:
  "staleTaskRef (state (exec evs w)) =
     (case last_start evs of None \<Rightarrow> staleTaskRef (state w) | Some u \<Rightarrow> Some u)"
proof (induction evs rule: rev_induct)
  case Nil
  then show ?case by (simp add: last_start_def)
next
  case (snoc a evs)
  then show ?case
    by (cases a) (simp_all add: exec_append last_start_snoc update_cells callbacks_keep_refs)
qed

text \<open>An entry is \<^verbatim>\<open>"running"\<close> only for the task of the latest start.\<close>

lemma step_running_entry_of:
  assumes "tasks (state w) t = Some Running \<longrightarrow> staleTaskRef (state w) = Some t"
  shows "tasks (state (step a w)) t = Some Running \<longrightarrow>
      staleTaskRef (state (step a w)) = Some t"
proof (cases a)
  case (Update u)
  with assms show ?thesis
    by (auto simp: update_cells split: option.splits if_splits)
next
  case (AbortCall d)
  with assms show ?thesis
    by (auto simp: callbacks_keep_refs dest: callbacks_no_new_running)
next
  case (Fulfil d v)
  with assms show ?thesis
    by (auto simp: callbacks_keep_refs dest: callbacks_no_new_running)
next
  case (Reject d r)
  with assms show ?thesis
    by (auto simp: callbacks_keep_refs dest: callbacks_no_new_running)
qed

lemma exec_running_entry_of:
  assumes "tasks (state w) t = Some Running \<longrightarrow> staleTaskRef (state w) = Some t"
  shows "tasks (state (exec evs w)) t = Some Running \<longrightarrow>
      staleTaskRef (state (exec evs w)) = Some t"
  using assms
proof (induction evs arbitrary: w)
  case Nil
  then show ?case by simp
next
  case (Cons a evs)
  from Cons.prems have "tasks (state (step a w)) t = Some Running \<longrightarrow>
      staleTaskRef (state (step a w)) = Some t"
    by (rule step_running_entry_of)
  then show ?case
    using Cons.IH [of "step a w"] by simp
qed

lemma not_running_unless_latest:
  assumes "tasks (state w) t \<noteq> Some Running" and "last_start evs \<noteq> Some t"
  shows "tasks (state (exec evs w)) t \<noteq> Some Running"
proof (cases "last_start evs")
  case None
  then have "started evs = []"
    by (simp add: last_start_def split: if_splits)
  then have "Update t \<notin> set evs"
  proof (induction evs)
    case Nil
    then show ?case by simp
  next
    case (Cons a evs)
    then show ?case by (cases a) auto
  qed
  with assms(1) show ?thesis
    by (rule exec_keeps_not_running)
next
  case (Some u)
  with assms(2) have "u \<noteq> t"
    by simp
  have "staleTaskRef (state (exec evs w)) = Some u"
    using Some by (simp add: stale_exec)
  moreover have "tasks (state (exec evs w)) t = Some Running \<longrightarrow>
      staleTaskRef (state (exec evs w)) = Some t"
    using assms(1) by (intro exec_running_entry_of) simp
  ultimately show ?thesis
    using \<open>u \<noteq> t\<close> by auto
qed



text \<open>
  Unless a run of task \<open>p\<close> rejects with a reason of its own, the map holds an entry for
  \<open>p\<close> only while \<open>p\<close> is the task of the latest start.
\<close>

lemma step_entry_latest:
  assumes "tasks (state w) p \<noteq> None \<longrightarrow> staleTaskRef (state w) = Some p"
    and "\<forall>c r. a = Reject c (Thrown r) \<longrightarrow> c < length (runs w) \<longrightarrow> runs w ! c \<noteq> p"
  shows "tasks (state (step a w)) p \<noteq> None \<longrightarrow> staleTaskRef (state (step a w)) = Some p"
proof (cases a)
  case (Update u)
  with assms(1) show ?thesis
    by (auto simp: update_cells split: option.splits if_splits)
next
  case (AbortCall d)
  have "dom (tasks (abort (runs w ! d) d (state w))) = dom (tasks (state w))"
    by (rule callbacks_keep_entries)
  with assms(1) AbortCall show ?thesis
    by (auto simp: callbacks_keep_refs domIff)
next
  case (Fulfil d v)
  have "dom (tasks (onfulfilled (runs w ! d) v (state w))) = dom (tasks (state w))"
    by (rule callbacks_keep_entries)
  with assms(1) Fulfil show ?thesis
    by (auto simp: callbacks_keep_refs domIff)
next
  case (Reject d r)
  show ?thesis
  proof (cases r)
    case symbolInvalidate
    with assms(1) Reject show ?thesis
      by (simp add: onrejected_discarded)
  next
    case symbolAborted
    with assms(1) Reject show ?thesis
      by (simp add: onrejected_discarded)
  next
    case (Thrown x)
    with assms Reject show ?thesis
      by (auto simp: onrejected_published)
  qed
qed

lemma step_keeps_absent:
  assumes "tasks (state w) p = None" and "a \<noteq> Update p"
    and "\<forall>c r. a = Reject c (Thrown r) \<longrightarrow> c < length (runs w) \<longrightarrow> runs w ! c \<noteq> p"
  shows "tasks (state (step a w)) p = None"
proof (cases a)
  case (Update u)
  with assms(1,2) show ?thesis
    by (auto simp: update_cells split: option.splits)
next
  case (AbortCall d)
  have "dom (tasks (abort (runs w ! d) d (state w))) = dom (tasks (state w))"
    by (rule callbacks_keep_entries)
  with assms(1) AbortCall show ?thesis
    by (auto simp: domIff)
next
  case (Fulfil d v)
  have "dom (tasks (onfulfilled (runs w ! d) v (state w))) = dom (tasks (state w))"
    by (rule callbacks_keep_entries)
  with assms(1) Fulfil show ?thesis
    by (auto simp: domIff)
next
  case (Reject d r)
  show ?thesis
  proof (cases r)
    case symbolInvalidate
    with assms(1) Reject show ?thesis
      by (simp add: onrejected_discarded)
  next
    case symbolAborted
    with assms(1) Reject show ?thesis
      by (simp add: onrejected_discarded)
  next
    case (Thrown x)
    with assms Reject show ?thesis
      by (auto simp: onrejected_published)
  qed
qed

lemma step_supersedes:
  assumes "tasks (state w) p \<noteq> None \<longrightarrow> staleTaskRef (state w) = Some p" and "u \<noteq> p"
  shows "tasks (state (step (Update u) w)) p = None"
  using assms by (auto simp: update_cells split: option.splits)

lemma absent_unless_latest_aux:
  assumes "tasks (state w) p = None"
    and "\<forall>c r. Reject c (Thrown r) \<in> set evs \<longrightarrow>
          c < length (runs (exec evs w)) \<longrightarrow> runs (exec evs w) ! c \<noteq> p"
  shows "(tasks (state (exec evs w)) p \<noteq> None \<longrightarrow>
            staleTaskRef (state (exec evs w)) = Some p) \<and>
         (last_start evs \<noteq> Some p \<longrightarrow> tasks (state (exec evs w)) p = None)"
  using assms(2)
proof (induction evs rule: rev_induct)
  case Nil
  with assms(1) show ?case by simp
next
  case (snoc a evs)
  let ?w = "exec evs w"
  have ext: "runs (exec (evs @ [a]) w) = runs ?w @ started [a]"
    by (simp add: runs_exec started_append)
  have len: "length (runs ?w) \<le> length (runs (exec (evs @ [a]) w))"
    by (simp add: ext)
  have same: "runs (exec (evs @ [a]) w) ! c = runs ?w ! c" if "c < length (runs ?w)" for c
    using that by (simp add: ext nth_append)
  have before: "\<forall>c r. Reject c (Thrown r) \<in> set evs \<longrightarrow>
      c < length (runs ?w) \<longrightarrow> runs ?w ! c \<noteq> p"
  proof (intro allI impI)
    fix c r
    assume "Reject c (Thrown r) \<in> set evs" and c: "c < length (runs ?w)"
    then have "runs (exec (evs @ [a]) w) ! c \<noteq> p"
      using snoc.prems len by auto
    with c show "runs ?w ! c \<noteq> p"
      by (simp add: same)
  qed
  have now: "\<forall>c r. a = Reject c (Thrown r) \<longrightarrow> c < length (runs ?w) \<longrightarrow> runs ?w ! c \<noteq> p"
  proof (intro allI impI)
    fix c r
    assume "a = Reject c (Thrown r)" and c: "c < length (runs ?w)"
    then have "runs (exec (evs @ [a]) w) ! c \<noteq> p"
      using snoc.prems len by auto
    with c show "runs ?w ! c \<noteq> p"
      by (simp add: same)
  qed
  from snoc.IH [OF before]
  have latest: "tasks (state ?w) p \<noteq> None \<longrightarrow> staleTaskRef (state ?w) = Some p"
    and absent: "last_start evs \<noteq> Some p \<longrightarrow> tasks (state ?w) p = None"
    by simp_all
  have latest': "tasks (state (step a ?w)) p \<noteq> None \<longrightarrow>
      staleTaskRef (state (step a ?w)) = Some p"
    using latest now by (rule step_entry_latest)
  have absent': "tasks (state (step a ?w)) p = None" if ne: "last_start (evs @ [a]) \<noteq> Some p"
  proof (cases a)
    case (Update u)
    with ne have "u \<noteq> p"
      by (simp add: last_start_snoc)
    with latest show ?thesis
      unfolding Update by (rule step_supersedes)
  next
    case (AbortCall d)
    with ne absent have "tasks (state ?w) p = None"
      by (simp add: last_start_snoc)
    then show ?thesis
      using _ now by (rule step_keeps_absent) (simp add: AbortCall)
  next
    case (Fulfil d v)
    with ne absent have "tasks (state ?w) p = None"
      by (simp add: last_start_snoc)
    then show ?thesis
      using _ now by (rule step_keeps_absent) (simp add: Fulfil)
  next
    case (Reject d r)
    with ne absent have "tasks (state ?w) p = None"
      by (simp add: last_start_snoc)
    then show ?thesis
      using _ now by (rule step_keeps_absent) (simp add: Reject)
  qed
  show ?case
    using latest' absent' by (simp add: exec_append)
qed

lemma absent_unless_latest:
  assumes "tasks (state w) p = None" and "last_start evs \<noteq> Some p"
    and "\<forall>c r. Reject c (Thrown r) \<in> set evs \<longrightarrow>
          c < length (runs (exec evs w)) \<longrightarrow> runs (exec evs w) ! c \<noteq> p"
  shows "tasks (state (exec evs w)) p = None"
  using absent_unless_latest_aux [OF assms(1,3)] assms(2) by simp

text \<open>
  An aborted entry stays aborted until the next start, unless a run of that task rejects
  with a reason of its own.
\<close>

lemma step_keeps_aborted:
  assumes "tasks (state w) t = Some Aborted" and "started [a] = []"
    and "\<forall>c r. a = Reject c (Thrown r) \<longrightarrow> c < length (runs w) \<longrightarrow> runs w ! c \<noteq> t"
  shows "tasks (state (step a w)) t = Some Aborted \<and> runs (step a w) = runs w"
proof (cases a)
  case (Update u)
  with assms(2) show ?thesis by simp
next
  case (AbortCall d)
  with assms(1) show ?thesis
    by (auto simp: abort_def cell_ops)
next
  case (Fulfil d v)
  with assms(1) show ?thesis
    by (auto simp: onfulfilled_def cell_ops split: option.splits status.splits)
next
  case (Reject d r)
  with assms(1,3) show ?thesis
    by (cases r) (auto simp: onrejected_def cell_ops)
qed

lemma exec_keeps_aborted:
  assumes "tasks (state w) t = Some Aborted" and "started evs = []"
    and "\<forall>c r. Reject c (Thrown r) \<in> set evs \<longrightarrow> c < length (runs w) \<longrightarrow> runs w ! c \<noteq> t"
  shows "tasks (state (exec evs w)) t = Some Aborted"
  using assms
proof (induction evs arbitrary: w)
  case Nil
  then show ?case by simp
next
  case (Cons a evs)
  have none: "started [a] = []" and rest: "started evs = []"
    using Cons.prems(2) by (cases a; simp)+
  have stp: "tasks (state (step a w)) t = Some Aborted \<and> runs (step a w) = runs w"
    using Cons.prems(1) none by (rule step_keeps_aborted) (use Cons.prems(3) in auto)
  have later: "\<forall>c r. Reject c (Thrown r) \<in> set evs \<longrightarrow>
      c < length (runs (step a w)) \<longrightarrow> runs (step a w) ! c \<noteq> t"
    using Cons.prems(3) stp by auto
  have "tasks (state (exec evs (step a w))) t = Some Aborted"
    using _ rest later by (rule Cons.IH) (simp add: stp)
  then show ?case
    by simp
qed

section \<open>The checkpoint\<close>

text \<open>
  C2. A call of \<^verbatim>\<open>tick\<close> rejects with the invalidation symbol when its task has no entry in
  the map, rejects with the aborted symbol when the entry is \<^verbatim>\<open>"aborted"\<close>, and in every
  other case (running, fulfilled, rejected) resolves to \<^verbatim>\<open>tick\<close> itself.
\<close>

theorem C2_tick_cases:
  "(tick t s = Inl symbolInvalidate \<longleftrightarrow> tasks s t = None) \<and>
   (tick t s = Inl symbolAborted \<longleftrightarrow> tasks s t = Some Aborted) \<and>
   (tick t s = Inr (Tick t) \<longleftrightarrow> tasks s t \<in> {Some Running, Some Fulfilled, Some Rejected}) \<and>
   (tick t s = Inl symbolInvalidate \<or> tick t s = Inl symbolAborted \<or> tick t s = Inr (Tick t))"
  by (auto simp: tick_def split: option.splits status.splits)

section \<open>Settlement of a task's promise\<close>

text \<open>
  C3. When the promise of a task fulfils, the value is dropped (the hook's cells and the
  view layer are left alone) exactly when the task has no entry in the map or its entry is
  \<^verbatim>\<open>"aborted"\<close>; otherwise the result becomes the fulfilled one with that value and one
  re-render is requested. When it rejects, the reason is dropped exactly when it is one of
  the two private symbols; otherwise the result becomes the rejected one carrying the
  reason as it was thrown, and one re-render is requested.
\<close>

theorem C3_settlement_policy:
  "(onfulfilled t v s = s \<longleftrightarrow> tasks s t = None \<or> tasks s t = Some Aborted) \<and>
   (tasks s t \<noteq> None \<and> tasks s t \<noteq> Some Aborted \<longrightarrow>
      resultRef (onfulfilled t v s) = ResFulfilled v \<and>
      effects (onfulfilled t v s) =
        effects s @ [SetResult (ResFulfilled v), TasksSet t Fulfilled, Rerender] \<and>
      notifications (onfulfilled t v s) = Suc (notifications s)) \<and>
   (onrejected t e s = s \<longleftrightarrow> e = symbolInvalidate \<or> e = symbolAborted) \<and>
   (e \<noteq> symbolInvalidate \<and> e \<noteq> symbolAborted \<longrightarrow>
      resultRef (onrejected t e s) = ResRejected e \<and>
      effects (onrejected t e s) =
        effects s @ [SetResult (ResRejected e), TasksSet t Rejected, Rerender] \<and>
      notifications (onrejected t e s) = Suc (notifications s))"
proof -
  have f_drop: "onfulfilled t v s = s" if "tasks s t = None \<or> tasks s t = Some Aborted"
    using that by (rule onfulfilled_discarded)
  have f_pub: "effects (onfulfilled t v s) =
        effects s @ [SetResult (ResFulfilled v), TasksSet t Fulfilled, Rerender] \<and>
      resultRef (onfulfilled t v s) = ResFulfilled v"
    if "tasks s t \<noteq> None" "tasks s t \<noteq> Some Aborted"
    using that by (simp add: onfulfilled_published)
  have r_drop: "onrejected t e s = s" if "e = symbolInvalidate \<or> e = symbolAborted"
    using that by (rule onrejected_discarded)
  have r_pub: "effects (onrejected t e s) =
        effects s @ [SetResult (ResRejected e), TasksSet t Rejected, Rerender] \<and>
      resultRef (onrejected t e s) = ResRejected e"
    if "e \<noteq> symbolInvalidate" "e \<noteq> symbolAborted"
    using that by (simp add: onrejected_published)
  have f_iff: "onfulfilled t v s = s \<longleftrightarrow> tasks s t = None \<or> tasks s t = Some Aborted"
    using f_drop f_pub effects_grow_neq by blast
  have r_iff: "onrejected t e s = s \<longleftrightarrow> e = symbolInvalidate \<or> e = symbolAborted"
    using r_drop r_pub effects_grow_neq by blast
  show ?thesis
    using f_iff r_iff f_pub r_pub by (simp add: notifications_def)
qed

theorem C3_settlement_policy_witness:
  "tasks (mount 0 :: (nat, nat) hook) 0 \<noteq> None \<and>
   tasks (mount 0 :: (nat, nat) hook) 0 \<noteq> Some Aborted \<and>
   resultRef (onfulfilled 0 5 (mount 0 :: (nat, nat) hook)) = ResFulfilled 5 \<and>
   notifications (onfulfilled 0 5 (mount 0 :: (nat, nat) hook)) = 1 \<and>
   Thrown (7::nat) \<noteq> symbolInvalidate \<and> Thrown (7::nat) \<noteq> symbolAborted \<and>
   resultRef (onrejected 0 (Thrown 7) (mount 0 :: (nat, nat) hook)) = ResRejected (Thrown 7) \<and>
   notifications (onrejected 0 (Thrown 7) (mount 0 :: (nat, nat) hook)) = 1"
  using C3_settlement_policy [of 0 5 "mount 0 :: (nat, nat) hook" "Thrown 7"]
  by (simp add: mount_cells notifications_def)

text \<open>
  C1, as the code behaves. The specification states that the settlement of a superseded or
  aborted run never touches the result and never requests a re-render. For fulfilment that
  is so (\<open>onfulfilled_discarded\<close>: the value is dropped when the task has no entry or
  an aborted one). For rejection it is not: \<^verbatim>\<open>onrejected\<close> looks at the reason only, never
  at the map. Here the hook is mounted with task 0. In the first history a render with
  task 1 supersedes run 0, whose promise then rejects with a reason of its own; in the
  second, run 0 is aborted and then rejects. Both times the rejected result is assigned over
  the current one and a re-render is requested.
\<close>

theorem C1_superseded_rejection_is_published:
  "tasks (state (exec [Update 1] (mounted 0 :: (nat, nat) component))) 0 = None \<and>
   resultRef (state (exec [Update 1] (mounted 0 :: (nat, nat) component))) = ResRunning 1 1 \<and>
   notifications (state (exec [Update 1] (mounted 0 :: (nat, nat) component))) = 0 \<and>
   resultRef (state (exec [Update 1, Reject 0 (Thrown 7)] (mounted 0 :: (nat, nat) component)))
     = ResRejected (Thrown 7) \<and>
   notifications
     (state (exec [Update 1, Reject 0 (Thrown 7)] (mounted 0 :: (nat, nat) component))) = 1 \<and>
   tasks (state (exec [AbortCall 0] (mounted 0 :: (nat, nat) component))) 0 = Some Aborted \<and>
   resultRef (state (exec [AbortCall 0] (mounted 0 :: (nat, nat) component))) = ResAborted \<and>
   notifications (state (exec [AbortCall 0] (mounted 0 :: (nat, nat) component))) = 1 \<and>
   resultRef (state (exec [AbortCall 0, Reject 0 (Thrown 7)] (mounted 0 :: (nat, nat) component)))
     = ResRejected (Thrown 7) \<and>
   notifications
     (state (exec [AbortCall 0, Reject 0 (Thrown 7)] (mounted 0 :: (nat, nat) component))) = 2"
  by (simp add: mounted_def mount_cells update_cells abort_when_running
      onrejected_published notifications_def)

section \<open>Requesting an abort\<close>

text \<open>
  C4, as stated, fails in two of its temporal parts. The map is keyed by the task function,
  so what a later call finds depends on the starts made in between. The hook is mounted with
  task 0 and run 0 is aborted: \<^verbatim>\<open>tick\<close> of run 0 rejects with the aborted symbol. After a
  render with task 1 it rejects with the invalidation symbol instead. After a further render
  with task 0 again, a second call of the \<^verbatim>\<open>abort\<close> function of run 0 finds the entry
  \<^verbatim>\<open>"running"\<close>: it assigns the aborted result over the running one and requests a second
  re-render.
\<close>

theorem C4_abort_acts_again:
  "tick 0 (state (exec [AbortCall 0] (mounted 0 :: (nat, nat) component)))
     = (Inl symbolAborted :: nat thrown + tick) \<and>
   tick 0 (state (exec [AbortCall 0, Update 1] (mounted 0 :: (nat, nat) component)))
     = (Inl symbolInvalidate :: nat thrown + tick) \<and>
   resultRef (state (exec [AbortCall 0] (mounted 0 :: (nat, nat) component))) = ResAborted \<and>
   notifications (state (exec [AbortCall 0] (mounted 0 :: (nat, nat) component))) = 1 \<and>
   resultRef (state (exec [AbortCall 0, Update 1, Update 0] (mounted 0 :: (nat, nat) component)))
     = ResRunning 0 2 \<and>
   notifications
     (state (exec [AbortCall 0, Update 1, Update 0] (mounted 0 :: (nat, nat) component))) = 1 \<and>
   resultRef
     (state (exec [AbortCall 0, Update 1, Update 0, AbortCall 0]
        (mounted 0 :: (nat, nat) component))) = ResAborted \<and>
   notifications
     (state (exec [AbortCall 0, Update 1, Update 0, AbortCall 0]
        (mounted 0 :: (nat, nat) component))) = 2"
  by (simp add: mounted_def mount_cells update_cells abort_when_running notifications_def
      tick_def)

text \<open>
  C4, amended. The \<^verbatim>\<open>abort\<close> function does nothing at all unless its task's entry in the
  map is \<^verbatim>\<open>"running"\<close>. When it is, \<^verbatim>\<open>abort\<close> makes the result the aborted one, aborts the
  run's \<^verbatim>\<open>AbortController\<close>, requests exactly one re-render, and leaves the task's entry in
  the map with status \<^verbatim>\<open>"aborted"\<close>, so that \<^verbatim>\<open>tick\<close> of that run rejects with the aborted
  symbol and not with the invalidation symbol, then and through every later abort call and
  settlement before the next start (settlements in which a run of that task rejects with a
  reason of its own are left open). A further call of \<^verbatim>\<open>abort\<close> for that task does nothing,
  directly afterwards and after any later renders, aborts and settlements, unless the most
  recent start made since then used the same task function again.
\<close>

theorem C4_abort_request:
  "(tasks s t \<noteq> Some Running \<longrightarrow> abort t c s = s) \<and>
   (tasks s t = Some Running \<longrightarrow>
      resultRef (abort t c s) = ResAborted \<and>
      signal_aborted (abort t c s) = insert c (signal_aborted s) \<and>
      effects (abort t c s) =
        effects s @ [SetResult ResAborted, TasksSet t Aborted, ControllerAbort c, Rerender] \<and>
      notifications (abort t c s) = Suc (notifications s) \<and>
      tasks (abort t c s) = (tasks s)(t \<mapsto> Aborted) \<and>
      staleTaskRef (abort t c s) = staleTaskRef s \<and>
      tick t (abort t c s) = Inl symbolAborted) \<and>
   (tasks s t = Some Running \<and> state w = abort t c s \<and> started evs = [] \<and>
    (\<forall>d r. Reject d (Thrown r) \<in> set evs \<longrightarrow> d < length (runs w) \<longrightarrow> runs w ! d \<noteq> t) \<longrightarrow>
      tick t (state (exec evs w)) = Inl symbolAborted) \<and>
   abort t c' (abort t c s) = abort t c s \<and>
   (state w = abort t c s \<and> last_start evs \<noteq> Some t \<longrightarrow>
      abort t c' (state (exec evs w)) = state (exec evs w))"
proof -
  have idle: "abort t c s = s" if "tasks s t \<noteq> Some Running"
    using that by (rule abort_when_not_running)
  have after: "tasks (abort t c s) t \<noteq> Some Running"
    by (cases "tasks s t = Some Running") (simp_all add: abort_when_running idle)
  have again: "abort t c' (abort t c s) = abort t c s"
    using after by (rule abort_when_not_running)
  have later: "abort t c' (state (exec evs w)) = state (exec evs w)"
    if "state w = abort t c s" "last_start evs \<noteq> Some t"
  proof -
    from that after have "tasks (state w) t \<noteq> Some Running" by simp
    then have "tasks (state (exec evs w)) t \<noteq> Some Running"
      using that(2) by (rule not_running_unless_latest)
    then show ?thesis by (rule abort_when_not_running)
  qed
  have act: "resultRef (abort t c s) = ResAborted \<and>
      signal_aborted (abort t c s) = insert c (signal_aborted s) \<and>
      effects (abort t c s) =
        effects s @ [SetResult ResAborted, TasksSet t Aborted, ControllerAbort c, Rerender] \<and>
      notifications (abort t c s) = Suc (notifications s) \<and>
      tasks (abort t c s) = (tasks s)(t \<mapsto> Aborted) \<and>
      staleTaskRef (abort t c s) = staleTaskRef s \<and>
      tick t (abort t c s) = Inl symbolAborted"
    if "tasks s t = Some Running"
    using that by (simp add: abort_when_running notifications_def tick_def)
  have stays: "tick t (state (exec evs w)) = Inl symbolAborted"
    if "tasks s t = Some Running" "state w = abort t c s" "started evs = []"
      "\<forall>d r. Reject d (Thrown r) \<in> set evs \<longrightarrow> d < length (runs w) \<longrightarrow> runs w ! d \<noteq> t"
  proof -
    from that(1,2) have "tasks (state w) t = Some Aborted"
      by (simp add: abort_when_running)
    then have "tasks (state (exec evs w)) t = Some Aborted"
      using that(3,4) by (rule exec_keeps_aborted)
    then show ?thesis
      by (simp add: tick_def)
  qed
  show ?thesis
    using idle act again later stays by blast
qed

theorem C4_abort_request_witness:
  "tasks (mount 0 :: (nat, nat) hook) 0 = Some Running \<and>
   resultRef (abort 0 0 (mount 0 :: (nat, nat) hook)) = ResAborted \<and>
   signal_aborted (abort 0 0 (mount 0 :: (nat, nat) hook)) = {0} \<and>
   notifications (abort 0 0 (mount 0 :: (nat, nat) hook)) = 1 \<and>
   tick 0 (abort 0 0 (mount 0 :: (nat, nat) hook)) = (Inl symbolAborted :: nat thrown + tick) \<and>
   tasks (update 1 (mount 0 :: (nat, nat) hook)) 0 \<noteq> Some Running \<and>
   abort 0 0 (update 1 (mount 0 :: (nat, nat) hook)) = update 1 (mount 0) \<and>
   started [AbortCall 0, Fulfil 0 5, Reject 0 symbolAborted :: (nat, nat) event] = [] \<and>
   tick 0
     (state (exec [AbortCall 0, Fulfil 0 5, Reject 0 symbolAborted]
        \<lparr>state = abort 0 0 (mount 0 :: (nat, nat) hook), runs = [0]\<rparr>)) =
     (Inl symbolAborted :: nat thrown + tick) \<and>
   last_start [Update 0, Fulfil 0 5, Update 1, Reject 1 (Thrown 7) :: (nat, nat) event]
     \<noteq> Some 0 \<and>
   abort 0 0
     (state (exec [Update 0, Fulfil 0 5, Update 1, Reject 1 (Thrown 7)]
        \<lparr>state = abort 0 0 (mount 0 :: (nat, nat) hook), runs = [0]\<rparr>)) =
   state (exec [Update 0, Fulfil 0 5, Update 1, Reject 1 (Thrown 7)]
        \<lparr>state = abort 0 0 (mount 0 :: (nat, nat) hook), runs = [0]\<rparr>)"
proof -
  let ?w = "\<lparr>state = abort 0 0 (mount 0 :: (nat, nat) hook), runs = [0]\<rparr>"
  have run: "tasks (mount 0 :: (nat, nat) hook) 0 = Some Running"
    by (simp add: mount_cells)
  have not: "tasks (update 1 (mount 0 :: (nat, nat) hook)) 0 \<noteq> Some Running"
    by (simp add: update_cells mount_cells)
  have st: "state ?w = abort 0 0 (mount 0 :: (nat, nat) hook)"
    by simp
  have quiet: "started [AbortCall 0, Fulfil 0 5, Reject 0 symbolAborted :: (nat, nat) event] = []"
    by simp
  have own: "\<forall>d r. Reject d (Thrown r)
        \<in> set [AbortCall 0, Fulfil 0 5, Reject 0 symbolAborted :: (nat, nat) event] \<longrightarrow>
      d < length (runs ?w) \<longrightarrow> runs ?w ! d \<noteq> 0"
    by simp
  have latest:
    "last_start [Update 0, Fulfil 0 5, Update 1, Reject 1 (Thrown 7) :: (nat, nat) event]
      \<noteq> Some 0"
    by (simp add: last_start_def)
  have sig: "signal_aborted (abort 0 0 (mount 0 :: (nat, nat) hook)) = {0}"
    using run by (simp add: abort_when_running mount_cells)
  from C4_abort_request [where s = "mount 0 :: (nat, nat) hook" and t = 0 and c = 0
      and w = ?w and evs = "[AbortCall 0, Fulfil 0 5, Reject 0 symbolAborted]" and c' = 0]
    C4_abort_request [where s = "mount 0 :: (nat, nat) hook" and t = 0 and c = 0
      and w = ?w and evs = "[Update 0, Fulfil 0 5, Update 1, Reject 1 (Thrown 7)]" and c' = 0]
    C4_abort_request [where s = "update 1 (mount 0 :: (nat, nat) hook)" and t = 0 and c = 0]
    run not st quiet own latest sig
  show ?thesis
    by (simp add: notifications_def mount_cells)
qed




section \<open>Starting a run\<close>

text \<open>
  C6, as stated, fails in what it says about every later \<^verbatim>\<open>tick\<close> of the previous run. The
  hook is mounted with task 0 and a render with task 1 supersedes it: \<^verbatim>\<open>tick\<close> of run 0
  rejects with the invalidation symbol. After a further render with task 0 again the map
  holds \<^verbatim>\<open>"running"\<close> for task 0, and \<^verbatim>\<open>tick\<close> of run 0 resolves.
\<close>

theorem C6_stale_tick_resolves_after_reuse:
  "tick 0 (state (exec [Update 1] (mounted 0 :: (nat, nat) component)))
     = (Inl symbolInvalidate :: nat thrown + tick) \<and>
   tick 0 (state (exec [Update 1, Update 0] (mounted 0 :: (nat, nat) component)))
     = (Inr (Tick 0) :: nat thrown + tick)"
  by (simp add: mounted_def mount_cells update_cells tick_def)

text \<open>
  C6, amended. The first render assigns the running result, enters the task in the map as
  \<^verbatim>\<open>"running"\<close> and calls the task, with no deletion from the map and no controller
  aborted. Every later start, whatever happened before it, assigns the running result,
  enters its task as \<^verbatim>\<open>"running"\<close>, then deletes the entry of the previous run's task once,
  then aborts the previous run's controller once, and only then calls the task. In the
  state in which the new body starts, the new task is entered as \<^verbatim>\<open>"running"\<close> unless it is
  the task function of the previous run, and \<^verbatim>\<open>tick\<close> of the previous run rejects with the
  invalidation symbol. It still does so at every later moment at which the most recent
  start made after that restart, if there is one, did not use the previous run's task
  function (histories in which a run of that task function rejects with a reason of its own
  are left open).
\<close>

theorem C6_start_sequence:
  "effects (mount h :: ('v, 'e) hook) =
     [SetResult (ResRunning h 0), TasksSet h Running, TaskCalled h 0] \<and>
   signal_aborted (mount h :: ('v, 'e) hook) = {} \<and>
   effects (update t (state (exec evs (mounted h :: ('v, 'e) component)))) =
     effects (state (exec evs (mounted h))) @
       [SetResult (ResRunning t (length (runs (exec evs (mounted h :: ('v, 'e) component))))),
        TasksSet t Running,
        TasksDelete (last (runs (exec evs (mounted h :: ('v, 'e) component)))),
        ControllerAbort (length (runs (exec evs (mounted h :: ('v, 'e) component))) - 1),
        TaskCalled t (length (runs (exec evs (mounted h :: ('v, 'e) component))))] \<and>
   resultRef (update t (state (exec evs (mounted h :: ('v, 'e) component)))) =
     ResRunning t (length (runs (exec evs (mounted h :: ('v, 'e) component)))) \<and>
   tasks (update t (state (exec evs (mounted h :: ('v, 'e) component)))) t =
     (if t = last (runs (exec evs (mounted h :: ('v, 'e) component))) then None
      else Some Running) \<and>
   tick (last (runs (exec evs (mounted h :: ('v, 'e) component))))
     (update t (state (exec evs (mounted h :: ('v, 'e) component)))) = Inl symbolInvalidate \<and>
   (last_start later \<noteq> Some (last (runs (exec evs (mounted h :: ('v, 'e) component)))) \<and>
    (\<forall>d r. Reject d (Thrown r) \<in> set later \<longrightarrow>
       d < length (runs (exec (evs @ Update t # later) (mounted h :: ('v, 'e) component))) \<longrightarrow>
       runs (exec (evs @ Update t # later) (mounted h :: ('v, 'e) component)) ! d
         \<noteq> last (runs (exec evs (mounted h :: ('v, 'e) component)))) \<longrightarrow>
    tick (last (runs (exec evs (mounted h :: ('v, 'e) component))))
      (state (exec (evs @ Update t # later) (mounted h :: ('v, 'e) component)))
      = Inl symbolInvalidate)"
proof -
  let ?w = "exec evs (mounted h :: ('v, 'e) component)"
  let ?p = "last (runs ?w)"
  let ?w1 = "step (Update t) ?w"
  have wf: "exec (evs @ Update t # later) (mounted h :: ('v, 'e) component) = exec later ?w1"
    by (simp add: exec_append)
  have at_start: "effects (mount h :: ('v, 'e) hook) =
       [SetResult (ResRunning h 0), TasksSet h Running, TaskCalled h 0] \<and>
     signal_aborted (mount h :: ('v, 'e) hook) = {} \<and>
     effects (update t (state ?w)) =
       effects (state ?w) @
         [SetResult (ResRunning t (length (runs ?w))), TasksSet t Running,
          TasksDelete ?p, ControllerAbort (length (runs ?w) - 1),
          TaskCalled t (length (runs ?w))] \<and>
     resultRef (update t (state ?w)) = ResRunning t (length (runs ?w)) \<and>
     tasks (update t (state ?w)) t = (if t = ?p then None else Some Running) \<and>
     tick ?p (update t (state ?w)) = Inl symbolInvalidate"
    using mounted_latest_run [of evs h]
    by (simp add: mount_cells update_cells tick_def)
  have gone: "tasks (state ?w1) ?p = None"
    using mounted_latest_run [of evs h] by (simp add: update_cells)
  have stays: "tick ?p (state (exec (evs @ Update t # later) (mounted h :: ('v, 'e) component)))
      = Inl symbolInvalidate"
    if "last_start later \<noteq> Some ?p"
      and "\<forall>d r. Reject d (Thrown r) \<in> set later \<longrightarrow>
       d < length (runs (exec (evs @ Update t # later) (mounted h :: ('v, 'e) component))) \<longrightarrow>
       runs (exec (evs @ Update t # later) (mounted h :: ('v, 'e) component)) ! d \<noteq> ?p"
  proof -
    have "tasks (state (exec later ?w1)) ?p = None"
      using gone that(1) that(2) [unfolded wf] by (rule absent_unless_latest)
    then show ?thesis
      by (simp add: wf tick_def)
  qed
  show ?thesis
    using at_start stays by blast
qed

theorem C6_start_sequence_witness:
  "last_start [Update 0, Reject 1 (Thrown 7), Fulfil 0 5, Update 2 :: (nat, nat) event]
     \<noteq> Some (last (runs (exec [] (mounted 0 :: (nat, nat) component)))) \<and>
   runs (exec ([] @ Update 1 # [Update 0, Reject 1 (Thrown 7), Fulfil 0 5, Update 2])
     (mounted 0 :: (nat, nat) component)) ! 1
     \<noteq> last (runs (exec [] (mounted 0 :: (nat, nat) component))) \<and>
   tick (last (runs (exec [] (mounted 0 :: (nat, nat) component))))
     (state (exec ([] @ Update 1 # [Update 0, Reject 1 (Thrown 7), Fulfil 0 5, Update 2])
        (mounted 0 :: (nat, nat) component)))
     = (Inl symbolInvalidate :: nat thrown + tick)"
proof -
  have a: "last_start [Update 0, Reject 1 (Thrown 7), Fulfil 0 5, Update 2 :: (nat, nat) event]
     \<noteq> Some (last (runs (exec [] (mounted 0 :: (nat, nat) component))))"
    by (simp add: last_start_def mounted_def)
  have b: "runs (exec ([] @ Update 1 # [Update 0, Reject 1 (Thrown 7), Fulfil 0 5, Update 2])
     (mounted 0 :: (nat, nat) component)) ! 1
     \<noteq> last (runs (exec [] (mounted 0 :: (nat, nat) component)))"
    by (simp add: mounted_def)
  have c: "\<forall>d r. Reject d (Thrown r)
        \<in> set [Update 0, Reject 1 (Thrown 7), Fulfil 0 5, Update 2 :: (nat, nat) event] \<longrightarrow>
      d < length (runs (exec ([] @ Update 1 #
            [Update 0, Reject 1 (Thrown 7), Fulfil 0 5, Update 2])
          (mounted 0 :: (nat, nat) component))) \<longrightarrow>
      runs (exec ([] @ Update 1 # [Update 0, Reject 1 (Thrown 7), Fulfil 0 5, Update 2])
          (mounted 0 :: (nat, nat) component)) ! d
        \<noteq> last (runs (exec [] (mounted 0 :: (nat, nat) component)))"
    using b by auto
  from C6_start_sequence [where evs = "[]" and h = 0 and t = 1
      and later = "[Update 0, Reject 1 (Thrown 7), Fulfil 0 5, Update 2 :: (nat, nat) event]"]
    a b c
  show ?thesis
    by blast
qed

section \<open>Restarting with the same task function\<close>

text \<open>
  C9, as stated, fails in what it says about the later fulfilment of the new run. The hook
  is mounted with task 0 and a render with task 0 again follows: the task has no entry.
  A render with task 1 and a third render with task 0 follow, which enters task 0 as
  \<^verbatim>\<open>"running"\<close>. \<^verbatim>\<open>tick\<close> of run 1, the run of the second render, now resolves, and when
  its promise fulfils, the value is assigned as the result and a re-render is requested.
\<close>

theorem C9_later_fulfilment_published:
  "staleTaskRef (mount 0 :: (nat, nat) hook) = Some 0 \<and>
   tasks (state (exec [Update 0] (mounted 0 :: (nat, nat) component))) 0 = None \<and>
   runs (exec [Update 0, Update 1, Update 0] (mounted 0 :: (nat, nat) component)) ! 1 = 0 \<and>
   resultRef (state (exec [Update 0, Update 1, Update 0] (mounted 0 :: (nat, nat) component)))
     = ResRunning 0 3 \<and>
   notifications
     (state (exec [Update 0, Update 1, Update 0] (mounted 0 :: (nat, nat) component))) = 0 \<and>
   tick 0 (state (exec [Update 0, Update 1, Update 0] (mounted 0 :: (nat, nat) component)))
     = (Inr (Tick 0) :: nat thrown + tick) \<and>
   resultRef
     (state (exec [Update 0, Update 1, Update 0, Fulfil 1 5]
        (mounted 0 :: (nat, nat) component))) = ResFulfilled 5 \<and>
   notifications
     (state (exec [Update 0, Update 1, Update 0, Fulfil 1 5]
        (mounted 0 :: (nat, nat) component))) = 1"
  by (simp add: mounted_def mount_cells update_cells onfulfilled_published
      notifications_def tick_def)

text \<open>
  C9, amended. A start enters its task in the map before it deletes the entry of the
  previous run's task, and the map is keyed by the task function. So when a restart uses
  the task function of the previous run, the deletion removes the entry just made: the
  task has no entry afterwards, and the map is empty whenever it held no entry of another
  task (as it does after mounting). \<^verbatim>\<open>tick\<close> of the new run rejects with the invalidation
  symbol, and the fulfilment of the new run is dropped: the result stays as it is and no
  re-render is requested. This holds in the state the restart leaves and at every later
  moment at which the most recent start made after that restart, if there is one, did not
  use the same task function (histories in which a run of that task function rejects with a
  reason of its own are left open).
\<close>

theorem C9_same_task_restart:
  assumes "staleTaskRef s = Some t"
  shows "(\<exists>rest. effects (update t s) =
            effects s @ [SetResult (ResRunning t (controllers s)), TasksSet t Running,
                         TasksDelete t] @ rest) \<and>
     tasks (update t s) = (tasks s)(t := None) \<and>
     (dom (tasks s) \<subseteq> {t} \<longrightarrow> tasks (update t s) = Map.empty) \<and>
     tasks (update t (mount t :: ('v, 'e) hook)) = Map.empty \<and>
     tick t (update t s) = Inl symbolInvalidate \<and>
     onfulfilled t v (update t s) = update t s \<and>
     resultRef (onfulfilled t v (update t s)) = ResRunning t (controllers s) \<and>
     notifications (onfulfilled t v (update t s)) = notifications s \<and>
     (state w = s \<and> last_start later \<noteq> Some t \<and>
      (\<forall>d r. Reject d (Thrown r) \<in> set later \<longrightarrow>
         d < length (runs (exec later (step (Update t) w))) \<longrightarrow>
         runs (exec later (step (Update t) w)) ! d \<noteq> t) \<longrightarrow>
      tasks (state (exec later (step (Update t) w))) t = None \<and>
      tick t (state (exec later (step (Update t) w))) = Inl symbolInvalidate \<and>
      onfulfilled t v (state (exec later (step (Update t) w))) =
        state (exec later (step (Update t) w)))"
proof -
  have eff: "\<exists>rest. effects (update t s) =
      effects s @ [SetResult (ResRunning t (controllers s)), TasksSet t Running,
                   TasksDelete t] @ rest"
    using assms by (simp add: update_cells)
  have gone: "tasks (update t s) = (tasks s)(t := None)"
    using assms by (simp add: update_cells)
  have empty: "tasks (update t s) = Map.empty" if "dom (tasks s) \<subseteq> {t}"
  proof
    fix x
    show "tasks (update t s) x = None"
      using that gone by (cases "x = t") auto
  qed
  have first: "tasks (update t (mount t :: ('v, 'e) hook)) = Map.empty"
    by (simp add: update_cells mount_cells)
  have absent: "tasks (update t s) t = None"
    using gone by simp
  have inv: "tick t (update t s) = Inl symbolInvalidate"
    using absent by (simp add: tick_def)
  have drop: "onfulfilled t v (update t s) = update t s"
    using absent by (simp add: onfulfilled_discarded)
  have quiet: "notifications (update t s) = notifications s"
    by (simp add: notifications_def update_cells split: option.splits)
  have now: "resultRef (onfulfilled t v (update t s)) = ResRunning t (controllers s) \<and>
      notifications (onfulfilled t v (update t s)) = notifications s"
    using drop quiet by (simp add: update_cells)
  have after: "tasks (state (exec later (step (Update t) w))) t = None \<and>
      tick t (state (exec later (step (Update t) w))) = Inl symbolInvalidate \<and>
      onfulfilled t v (state (exec later (step (Update t) w))) =
        state (exec later (step (Update t) w))"
    if "state w = s" "last_start later \<noteq> Some t"
      "\<forall>d r. Reject d (Thrown r) \<in> set later \<longrightarrow>
         d < length (runs (exec later (step (Update t) w))) \<longrightarrow>
         runs (exec later (step (Update t) w)) ! d \<noteq> t"
  proof -
    have "tasks (state (step (Update t) w)) t = None"
      using absent that(1) by simp
    then have "tasks (state (exec later (step (Update t) w))) t = None"
      using that(2,3) by (rule absent_unless_latest)
    then show ?thesis
      by (simp add: tick_def onfulfilled_discarded)
  qed
  show ?thesis
    using eff gone empty first inv drop now after by blast
qed

theorem C9_same_task_restart_witness:
  "staleTaskRef (mount 3 :: (nat, nat) hook) = Some 3 \<and>
   dom (tasks (mount 3 :: (nat, nat) hook)) \<subseteq> {3} \<and>
   tasks (update 3 (mount 3 :: (nat, nat) hook)) = Map.empty \<and>
   tick 3 (update 3 (mount 3 :: (nat, nat) hook)) = (Inl symbolInvalidate :: nat thrown + tick) \<and>
   onfulfilled 3 5 (update 3 (mount 3 :: (nat, nat) hook)) = update 3 (mount 3) \<and>
   last_start [AbortCall 1, Update 3, Update 4, Reject 2 symbolInvalidate, Reject 3 (Thrown 7)
     :: (nat, nat) event] \<noteq> Some 3 \<and>
   runs (exec [AbortCall 1, Update 3, Update 4, Reject 2 symbolInvalidate, Reject 3 (Thrown 7)]
     (step (Update 3) (mounted 3 :: (nat, nat) component))) ! 3 \<noteq> 3 \<and>
   tick 3
     (state (exec [AbortCall 1, Update 3, Update 4, Reject 2 symbolInvalidate,
                   Reject 3 (Thrown 7)]
        (step (Update 3) (mounted 3 :: (nat, nat) component))))
     = (Inl symbolInvalidate :: nat thrown + tick) \<and>
   onfulfilled 3 5
     (state (exec [AbortCall 1, Update 3, Update 4, Reject 2 symbolInvalidate,
                   Reject 3 (Thrown 7)]
        (step (Update 3) (mounted 3 :: (nat, nat) component)))) =
   state (exec [AbortCall 1, Update 3, Update 4, Reject 2 symbolInvalidate,
                Reject 3 (Thrown 7)]
        (step (Update 3) (mounted 3 :: (nat, nat) component)))"
proof -
  let ?later = "[AbortCall 1, Update 3, Update 4, Reject 2 symbolInvalidate,
    Reject 3 (Thrown 7) :: (nat, nat) event]"
  let ?w = "mounted 3 :: (nat, nat) component"
  have h: "staleTaskRef (mount 3 :: (nat, nat) hook) = Some 3"
    by (simp add: mount_cells)
  have sub: "dom (tasks (mount 3 :: (nat, nat) hook)) \<subseteq> {3}"
    by (simp add: mount_cells)
  have st: "state ?w = (mount 3 :: (nat, nat) hook)"
    by (simp add: mounted_def)
  have l: "last_start ?later \<noteq> Some 3"
    by (simp add: last_start_def)
  have r: "runs (exec ?later (step (Update 3) ?w)) ! 3 \<noteq> 3"
    by (simp add: runs_exec mounted_def)
  have own: "\<forall>d r. Reject d (Thrown r) \<in> set ?later \<longrightarrow>
      d < length (runs (exec ?later (step (Update 3) ?w))) \<longrightarrow>
      runs (exec ?later (step (Update 3) ?w)) ! d \<noteq> 3"
    using r by auto
  from C9_same_task_restart [OF h, where v = 5 and w = ?w and later = ?later] h sub st l r own
  show ?thesis
    by blast
qed

section \<open>Requests to render again\<close>

text \<open>
  C7. A start never asks the view layer to render again, neither the first one nor a
  restart. Each of \<^verbatim>\<open>abort\<close>, \<^verbatim>\<open>onfulfilled\<close> and \<^verbatim>\<open>onrejected\<close> asks for one re-render
  exactly when it assigns the result, and for none otherwise. Hence, after any history, the
  result has been assigned once per start and once per requested re-render.
\<close>

theorem C7_one_rerender_per_publication:
  "notifications (mount h :: ('v, 'e) hook) = 0 \<and>
   notifications (update t (s :: ('v, 'e) hook)) = notifications s \<and>
   publications (update t s) = Suc (publications s) \<and>
   notifications (abort t c s) = notifications s + (if tasks s t = Some Running then 1 else 0) \<and>
   publications (abort t c s) = publications s + (if tasks s t = Some Running then 1 else 0) \<and>
   notifications (onfulfilled t v s) =
     notifications s + (if tasks s t = None \<or> tasks s t = Some Aborted then 0 else 1) \<and>
   publications (onfulfilled t v s) =
     publications s + (if tasks s t = None \<or> tasks s t = Some Aborted then 0 else 1) \<and>
   notifications (onrejected t e s) =
     notifications s + (if e = symbolInvalidate \<or> e = symbolAborted then 0 else 1) \<and>
   publications (onrejected t e s) =
     publications s + (if e = symbolInvalidate \<or> e = symbolAborted then 0 else 1) \<and>
   publications (state (exec evs (mounted h :: ('v, 'e) component))) =
     notifications (state (exec evs (mounted h :: ('v, 'e) component)))
       + Suc (length (filter is_Update evs))"
proof -
  have upd: "notifications (update t s) = notifications s \<and>
      publications (update t s) = Suc (publications s)" for t and s :: "('v, 'e) hook"
    by (simp add: notifications_def publications_def update_cells split: option.splits)
  have abo: "notifications (abort t c s) =
        notifications s + (if tasks s t = Some Running then 1 else 0) \<and>
      publications (abort t c s) =
        publications s + (if tasks s t = Some Running then 1 else 0)"
    for t c and s :: "('v, 'e) hook"
    by (simp add: notifications_def publications_def abort_when_running
        abort_when_not_running)
  have ful: "notifications (onfulfilled t v s) =
        notifications s + (if tasks s t = None \<or> tasks s t = Some Aborted then 0 else 1) \<and>
      publications (onfulfilled t v s) =
        publications s + (if tasks s t = None \<or> tasks s t = Some Aborted then 0 else 1)"
    for t v and s :: "('v, 'e) hook"
    by (cases "tasks s t = None \<or> tasks s t = Some Aborted")
      (simp_all add: notifications_def publications_def onfulfilled_published
        onfulfilled_discarded)
  have rej: "notifications (onrejected t e s) =
        notifications s + (if e = symbolInvalidate \<or> e = symbolAborted then 0 else 1) \<and>
      publications (onrejected t e s) =
        publications s + (if e = symbolInvalidate \<or> e = symbolAborted then 0 else 1)"
    for t e and s :: "('v, 'e) hook"
    by (cases "e = symbolInvalidate \<or> e = symbolAborted")
      (simp_all add: notifications_def publications_def onrejected_published
        onrejected_discarded)
  have one: "publications (state (step a w)) + notifications (state w) =
      publications (state w) + notifications (state (step a w))
        + (if is_Update a then 1 else 0)"
    for a and w :: "('v, 'e) component"
    by (cases a) (simp_all add: upd abo ful rej)
  have many: "publications (state (exec evs w)) + notifications (state w) =
      publications (state w) + notifications (state (exec evs w))
        + length (filter is_Update evs)"
    for w :: "('v, 'e) component"
  proof (induction evs arbitrary: w)
    case Nil
    then show ?case by simp
  next
    case (Cons a evs)
    show ?case
      using Cons.IH [of "step a w"] one [of a w]
      by (cases "is_Update a"; simp; linarith)
  qed
  have first: "notifications (mount h :: ('v, 'e) hook) = 0 \<and>
      publications (mount h :: ('v, 'e) hook) = 1"
    by (simp add: notifications_def publications_def mount_cells)
  have total: "publications (state (exec evs (mounted h :: ('v, 'e) component))) =
     notifications (state (exec evs (mounted h :: ('v, 'e) component)))
       + Suc (length (filter is_Update evs))"
    using many [of "mounted h"] first by (simp add: mounted_def)
  show ?thesis
    using upd [of t s] abo [of t c s] ful [of t v s] rej [of t e s] first total by blast
qed

section \<open>The cancellation signals\<close>

text \<open>
  C8. After any history of a mounted hook, the signal of a run is aborted if and only if
  \<^verbatim>\<open>abort\<close> of that run was called while the map held \<^verbatim>\<open>"running"\<close> for its task, or a
  later start took place after the run had been started. Nothing else aborts a signal, and
  after the first start no signal is aborted.
\<close>

theorem C8_signal_aborted_iff:
  "(c \<in> signal_aborted (state (exec evs (mounted h :: ('v, 'e) component))) \<longleftrightarrow>
      abort_requested_while_running h evs c \<or> evicted_by_later_start h evs c) \<and>
   signal_aborted (mount h :: ('v, 'e) hook) = {}"
proof -
  have "c \<in> signal_aborted (state (exec evs (mounted h :: ('v, 'e) component))) \<longleftrightarrow>
      abort_requested_while_running h evs c \<or> evicted_by_later_start h evs c"
  proof (induction evs rule: rev_induct)
    case Nil
    show ?case
      by (simp add: abort_requested_while_running_def evicted_by_later_start_def
          mounted_def mount_cells)
  next
    case (snoc a evs)
    let ?w = "exec evs (mounted h :: ('v, 'e) component)"
    have ref: "staleAbortControllerRef (state ?w) = Some (length (runs ?w) - 1)"
      using mounted_latest_run [of evs h] by simp
    have some: "runs ?w \<noteq> []"
      using mounted_latest_run [of evs h] by simp
    have now: "c \<in> signal_aborted (state (step a ?w)) \<longleftrightarrow>
        c \<in> signal_aborted (state ?w) \<or>
        (is_Update a \<and> Suc c = length (runs ?w)) \<or>
        (a = AbortCall c \<and> c < length (runs ?w) \<and>
         tasks (state ?w) (runs ?w ! c) = Some Running)"
      using ref some by (rule signal_aborted_step)
    have old: "evicted_by_later_start h evs c \<longleftrightarrow> Suc c < length (runs ?w)"
      by (rule evicted_iff_not_latest)
    have new: "evicted_by_later_start h (evs @ [a]) c \<longleftrightarrow>
        evicted_by_later_start h evs c \<or> (is_Update a \<and> c < length (runs ?w))"
      by (rule evicted_snoc)
    have req: "abort_requested_while_running h (evs @ [a]) c \<longleftrightarrow>
        abort_requested_while_running h evs c \<or>
        (a = AbortCall c \<and> c < length (runs ?w) \<and>
         tasks (state ?w) (runs ?w ! c) = Some Running)"
      by (rule abort_requested_snoc)
    have "c < length (runs ?w) \<longleftrightarrow> Suc c < length (runs ?w) \<or> Suc c = length (runs ?w)"
      by auto
    with snoc.IH now old new req show ?case
      by (simp add: exec_append) blast
  qed
  then show ?thesis
    by (simp add: mount_cells)
qed

theorem C8_signal_aborted_iff_witness:
  "abort_requested_while_running 0 [AbortCall 0 :: (nat, nat) event] 0 \<and>
   0 \<in> signal_aborted (state (exec [AbortCall 0] (mounted 0 :: (nat, nat) component))) \<and>
   evicted_by_later_start 0 [Update 1 :: (nat, nat) event] 0 \<and>
   0 \<in> signal_aborted (state (exec [Update 1] (mounted 0 :: (nat, nat) component))) \<and>
   \<not> abort_requested_while_running 0 [Update 1 :: (nat, nat) event] 1 \<and>
   \<not> evicted_by_later_start 0 [Update 1 :: (nat, nat) event] 1 \<and>
   1 \<notin> signal_aborted (state (exec [Update 1] (mounted 0 :: (nat, nat) component)))"
proof -
  have a: "abort_requested_while_running 0 [AbortCall 0 :: (nat, nat) event] 0"
    by (simp add: abort_requested_while_running_def mounted_def mount_cells)
  have b: "evicted_by_later_start 0 [Update 1 :: (nat, nat) event] 0"
    by (simp add: evicted_by_later_start_def mounted_def)
  have c: "\<not> abort_requested_while_running 0 [Update 1 :: (nat, nat) event] 1"
    by (simp add: abort_requested_while_running_def)
  have d: "\<not> evicted_by_later_start 0 [Update 1 :: (nat, nat) event] 1"
    by (simp add: evicted_by_later_start_def mounted_def)
  show ?thesis
    using a b c d
      C8_signal_aborted_iff [of 0 "[AbortCall 0 :: (nat, nat) event]" 0]
      C8_signal_aborted_iff [of 0 "[Update 1 :: (nat, nat) event]" 0]
      C8_signal_aborted_iff [of 1 "[Update 1 :: (nat, nat) event]" 0]
    by blast
qed

section \<open>How many entries the map holds\<close>

text \<open>
  C5, as the code behaves. The specification states that the map never holds more than
  one entry.
  At most one task is entered as \<^verbatim>\<open>"running"\<close> (\<open>at_most_one_running\<close>), and the map holds
  no entry besides the latest run's as long as no promise rejects with a reason of its own
  (\<open>single_entry_without_own_rejections\<close>). But \<^verbatim>\<open>onrejected\<close> writes the entry of
  its task without looking at the map: mounted with task 0, superseded by a render with
  task 1, and run 0 then rejecting, the map holds an entry for task 0 and one for task 1.
\<close>

theorem C5_two_entries_after_superseded_rejection:
  "tasks (state (exec [Update 1, Reject 0 (Thrown 7)] (mounted 0 :: (nat, nat) component))) 0
     = Some Rejected \<and>
   tasks (state (exec [Update 1, Reject 0 (Thrown 7)] (mounted 0 :: (nat, nat) component))) 1
     = Some Running \<and>
   staleTaskRef
     (state (exec [Update 1, Reject 0 (Thrown 7)] (mounted 0 :: (nat, nat) component)))
     = Some 1"
  by (simp add: mounted_def mount_cells update_cells onrejected_published callbacks_keep_refs)

end
